theory Spec2Isabelle
  imports Main
begin

section \<open>TAKtick: a TCP relay that echoes terminator-delimited messages to all participants\<close>

text \<open>
  The development embeds the connection-management core of \<^verbatim>\<open>TAKtick.c\<close>: the participant
  list (\<^verbatim>\<open>add_participant\<close>, \<^verbatim>\<open>terminate_participants\<close>), the drain cycle
  (\<^verbatim>\<open>parse_data\<close> with its helper \<^verbatim>\<open>memmem\<close>), the broadcast (\<^verbatim>\<open>share_data\<close>) and
  the service pass (\<^verbatim>\<open>service_participants\<close>). The POSIX branch of every
  \<^verbatim>\<open>#if\<close> is the one modelled.
\<close>

subsection \<open>Constants\<close>

definition terminator_string :: "char list" where
  "terminator_string = ''</event>''"

definition terminator_length :: int where
  "terminator_length = 8"

definition buffer_chunk_size :: int where
  "buffer_chunk_size = 65536"

text \<open>The largest value of the C type \<^verbatim>\<open>int\<close> (32 bits, two's complement).\<close>

definition INT_MAX :: int where
  "INT_MAX = 2147483647"

subsection \<open>Data\<close>

text \<open>
  \<^verbatim>\<open>struct participant_list_struct\<close>. The field \<^verbatim>\<open>length\<close> is named \<open>length_p\<close> here.
  The field \<open>buffer\<close> holds the bytes at the offsets \<open>0 ..< length_p\<close> of the allocated
  block: the program reads no byte at or beyond offset \<^verbatim>\<open>length\<close> (\<^verbatim>\<open>recv\<close> writes
  from there on, \<^verbatim>\<open>memmem\<close>, \<^verbatim>\<open>send\<close> and \<^verbatim>\<open>memmove\<close> read below it), so those bytes
  are not represented. \<open>max_length\<close> is the size of the allocated block. The \<^verbatim>\<open>next\<close>
  pointers are the order of a HOL list, and a pointer to a list entry is its index.
\<close>

record participant =
  socket :: int
  closed :: bool
  buffer :: "char list"
  length_p :: int
  max_length :: int

record server_context_type =
  participant_list_base :: "participant list"
  participant_count :: int

text \<open>
  The process stops in one way inside the modelled code: \<^verbatim>\<open>assert(participant->buffer)\<close>
  after a \<^verbatim>\<open>realloc\<close> that could not be satisfied.
\<close>

datatype error = Allocation_failed

subsection \<open>The environment: sockets\<close>

text \<open>
  What the network delivers on a socket is a finite list of events, consumed by the
  calls of \<^verbatim>\<open>recv\<close> on that socket: \<open>Bytes bs\<close> are bytes waiting in the kernel
  (\<open>Bytes []\<close> is the orderly close, on which \<^verbatim>\<open>recv\<close> returns 0), \<open>Would_block\<close>
  makes one call fail with \<^verbatim>\<open>EAGAIN\<close>, \<open>Io_error\<close> makes one call fail with another
  \<^verbatim>\<open>errno\<close>. A socket with no event left has nothing to deliver: \<^verbatim>\<open>EAGAIN\<close>.
  The outcome of the \<open>n\<close>-th call of \<^verbatim>\<open>send\<close> is \<open>send_outcome n\<close>, any integer; every
  call is logged in \<open>sent\<close> with its socket and its byte range. \<open>released\<close> logs the
  sockets given to \<^verbatim>\<open>close\<close>.
\<close>

datatype recv_event = Bytes "char list" | Would_block | Io_error

datatype recv_result = Received "char list" | Eagain | Failed

record world =
  incoming :: "int \<Rightarrow> recv_event list"
  send_outcome :: "nat \<Rightarrow> int"
  sent :: "(int \<times> char list) list"
  released :: "int list"

text \<open>
  \<^verbatim>\<open>recv(sock, buf, space, 0)\<close> returns at most \<open>space\<close> bytes; what does not fit stays
  in the kernel for the next call.
\<close>

definition recv_m :: "int \<Rightarrow> int \<Rightarrow> world \<Rightarrow> recv_result \<times> world" where
  "recv_m sock space w =
     (case incoming w sock of
        [] \<Rightarrow> (Eagain, w)
      | Would_block # es \<Rightarrow> (Eagain, w\<lparr>incoming := (incoming w)(sock := es)\<rparr>)
      | Io_error # es \<Rightarrow> (Failed, w\<lparr>incoming := (incoming w)(sock := es)\<rparr>)
      | Bytes bs # es \<Rightarrow>
          (let got = take (nat space) bs; left = drop (nat space) bs
           in (Received got,
               w\<lparr>incoming := (incoming w)(sock := (if left = [] then es else Bytes left # es))\<rparr>)))"

text \<open>The value \<^verbatim>\<open>numRead\<close> that \<^verbatim>\<open>recv\<close> returns.\<close>

fun numRead_of :: "recv_result \<Rightarrow> int" where
  "numRead_of (Received bs) = int (length bs)"
| "numRead_of Eagain = -1"
| "numRead_of Failed = -1"

definition send_m :: "int \<Rightarrow> char list \<Rightarrow> world \<Rightarrow> int \<times> world" where
  "send_m sock msg w = (send_outcome w (length (sent w)), w\<lparr>sent := sent w @ [(sock, msg)]\<rparr>)"

definition close_m :: "int \<Rightarrow> world \<Rightarrow> world" where
  "close_m sock w = w\<lparr>released := released w @ [sock]\<rparr>"

subsection \<open>\<^verbatim>\<open>memmem\<close>\<close>

text \<open>
  The \<^verbatim>\<open>for\<close> loop of \<^verbatim>\<open>memmem\<close>: \<open>h\<close> is what is left of the haystack, \<open>off\<close> the
  distance of \<open>h\<close> from its start. The result is the offset of the first match.
\<close>

function memmem_scan :: "char list \<Rightarrow> char list \<Rightarrow> nat \<Rightarrow> nat option" where
  "memmem_scan h needle off =
     (if length needle \<le> length h
      then (if take (length needle) h = needle then Some off
            else memmem_scan (tl h) needle (Suc off))
      else None)"
  by pat_completeness auto
termination
proof (relation "measure (\<lambda>(h, needle, off). length h)")
  show "wf (measure (\<lambda>(h, needle, off). length h))" by simp
next
  fix h needle :: "char list" and off :: nat
  assume "length needle \<le> length h" and "take (length needle) h \<noteq> needle"
  then have "h \<noteq> []" by auto
  then show "((tl h, needle, Suc off), (h, needle, off)) \<in> measure (\<lambda>(h, needle, off). length h)"
    by (cases h) simp_all
qed

declare memmem_scan.simps [simp del]

definition memmem_m :: "char list \<Rightarrow> char list \<Rightarrow> nat option" where
  "memmem_m haystack needle =
     (if length haystack = 0 \<or> length needle = 0 then None
      else memmem_scan haystack needle 0)"

subsection \<open>\<^verbatim>\<open>share_data\<close>\<close>

text \<open>The \<^verbatim>\<open>while (pnt)\<close> loop of \<^verbatim>\<open>share_data\<close> over the list, \<open>msg\<close> being the byte range.\<close>

fun share_loop :: "char list \<Rightarrow> participant list \<Rightarrow> world \<Rightarrow> participant list \<times> world" where
  "share_loop msg [] w = ([], w)"
| "share_loop msg (pnt # rest) w =
     (let (outcome, w1) = send_m (socket pnt) msg w;
          pnt' = (if outcome \<le> 0 then pnt\<lparr>closed := True\<rparr> else pnt);
          (rest', w2) = share_loop msg rest w1
      in (pnt' # rest', w2))"

definition share_data ::
  "char list \<Rightarrow> int \<Rightarrow> server_context_type \<Rightarrow> world \<Rightarrow> server_context_type \<times> world" where
  "share_data buf len ctx w =
     (let (ps, w') = share_loop (take (nat len) buf) (participant_list_base ctx) w
      in (ctx\<lparr>participant_list_base := ps\<rparr>, w'))"

subsection \<open>\<^verbatim>\<open>parse_data\<close>\<close>

text \<open>
  Lines 336 to 342: the capacity check before each \<^verbatim>\<open>recv\<close>. \<^verbatim>\<open>max_length << 1\<close> is
  not representable in \<^verbatim>\<open>int\<close> from \<open>2 ^ 30\<close> on; the request \<^verbatim>\<open>realloc\<close> then gets
  cannot be satisfied and the \<^verbatim>\<open>assert\<close> stops the process. \<^verbatim>\<open>realloc\<close> keeps the
  contents up to the smaller of the old and the new size.
\<close>

definition grow_buffer :: "participant \<Rightarrow> error + participant" where
  "grow_buffer p =
     (if max_length p \<le> 0 \<or> length_p p + buffer_chunk_size > max_length p
      then (let m = (if max_length p \<le> 0 then buffer_chunk_size else max_length p * 2)
            in if m > INT_MAX then Inl Allocation_failed
               else Inr (p\<lparr>max_length := m, buffer := take (nat m) (buffer p)\<rparr>))
      else Inr p)"

text \<open>Line 359, evaluated before \<^verbatim>\<open>length\<close> is advanced.\<close>

definition search_onset :: "participant \<Rightarrow> int" where
  "search_onset p =
     (if length_p p > terminator_length then length_p p - terminator_length else 0)"

text \<open>\<^verbatim>\<open>recv\<close> has written \<open>bs\<close> from offset \<^verbatim>\<open>length\<close> on; line 360 advances \<^verbatim>\<open>length\<close>.\<close>

definition append_received :: "participant \<Rightarrow> char list \<Rightarrow> participant" where
  "append_received p bs =
     p\<lparr>buffer := take (nat (length_p p)) (buffer p) @ bs,
       length_p := length_p p + int (length bs)\<rparr>"

text \<open>
  Lines 361 to 367, for the participant at index \<open>i\<close>: one search from \<open>onset\<close>, and on a
  match the broadcast of \<open>buffer[0 ..< size]\<close>, then \<^verbatim>\<open>length -= size\<close> and the
  \<^verbatim>\<open>memmove\<close>. \<^verbatim>\<open>share_data\<close> works on the list the participant itself is in.
\<close>

definition extract_message ::
  "nat \<Rightarrow> int \<Rightarrow> server_context_type \<Rightarrow> world \<Rightarrow> server_context_type \<times> world" where
  "extract_message i onset ctx w =
     (let participant = participant_list_base ctx ! i
      in case memmem_m (drop (nat onset) (take (nat (length_p participant)) (buffer participant)))
                terminator_string of
           None \<Rightarrow> (ctx, w)
         | Some k \<Rightarrow>
             (let size = onset + int k + terminator_length;
                  (ctx1, w1) = share_data (buffer participant) size ctx w;
                  p1 = participant_list_base ctx1 ! i;
                  p2 = p1\<lparr>length_p := length_p p1 - size\<rparr>;
                  p3 = p2\<lparr>buffer := take (nat (length_p p2)) (drop (nat size) (buffer p2))\<rparr>
              in (ctx1\<lparr>participant_list_base := (participant_list_base ctx1)[i := p3]\<rparr>, w1)))"

text \<open>
  One iteration of the \<^verbatim>\<open>do ... while\<close> loop; the first component of the result is
  \<^verbatim>\<open>numRead\<close>. \<^verbatim>\<open>case -1\<close> falls through to \<^verbatim>\<open>case 0\<close> unless \<^verbatim>\<open>errno\<close> is
  \<^verbatim>\<open>EAGAIN\<close>. The pointer \<^verbatim>\<open>participant\<close> always designates an entry of the list; an
  index outside the list designates none, and nothing is done.
\<close>

definition parse_step ::
  "nat \<Rightarrow> server_context_type \<Rightarrow> world \<Rightarrow> error + (int \<times> server_context_type \<times> world)" where
  "parse_step i ctx w =
     (let ps = participant_list_base ctx
      in if i < length ps
         then (case grow_buffer (ps ! i) of
                 Inl e \<Rightarrow> Inl e
               | Inr p \<Rightarrow>
                   (let (r, w1) = recv_m (socket p) (max_length p - length_p p) w
                    in case r of
                         Eagain \<Rightarrow> Inr (numRead_of r, ctx\<lparr>participant_list_base := ps[i := p]\<rparr>, w1)
                       | Failed \<Rightarrow>
                           Inr (numRead_of r,
                                ctx\<lparr>participant_list_base := ps[i := p\<lparr>closed := True\<rparr>]\<rparr>, w1)
                       | Received bs \<Rightarrow>
                           (if numRead_of r = 0
                            then Inr (numRead_of r,
                                      ctx\<lparr>participant_list_base := ps[i := p\<lparr>closed := True\<rparr>]\<rparr>, w1)
                            else (let onset = search_onset p;
                                      ctx1 = ctx\<lparr>participant_list_base := ps[i := append_received p bs]\<rparr>;
                                      (ctx2, w2) = extract_message i onset ctx1 w1
                                  in Inr (numRead_of r, ctx2, w2)))))
         else Inr (0, ctx, w))"

text \<open>
  The measure of the drain loop: the bytes and events still to be delivered on the
  participant's socket. Every \<^verbatim>\<open>recv\<close> that returns a positive count consumes some.
\<close>

fun event_weight :: "recv_event \<Rightarrow> nat" where
  "event_weight (Bytes bs) = Suc (length bs)"
| "event_weight Would_block = 1"
| "event_weight Io_error = 1"

definition pending :: "recv_event list \<Rightarrow> nat" where
  "pending es = sum_list (map event_weight es)"

text \<open>The \<^verbatim>\<open>do ... while (numRead > 0)\<close> loop of \<^verbatim>\<open>parse_data\<close>.\<close>

function parse_data ::
  "nat \<Rightarrow> server_context_type \<Rightarrow> world \<Rightarrow> error + (server_context_type \<times> world)" where
  "parse_data i ctx w =
     (case parse_step i ctx w of
        Inl e \<Rightarrow> Inl e
      | Inr (numRead, ctx', w') \<Rightarrow>
          (if numRead > 0 then parse_data i ctx' w' else Inr (ctx', w')))"
  by pat_completeness auto
termination
proof -
  have loop: "share_loop msg ps w = (ps', w') \<Longrightarrow>
      map socket ps' = map socket ps \<and> incoming w' = incoming w"
    for msg ps w ps' w'
    by (induction ps arbitrary: w ps' w') (auto simp: Let_def send_m_def split: prod.splits)
  have same: "(map f xs)[i := f (xs ! i)] = map f xs" for f :: "participant \<Rightarrow> int" and xs i
  proof (cases "i < length xs")
    case True
    then show ?thesis by (simp add: list_update_same_conv)
  next
    case False
    then have "length (map f xs) \<le> i" by simp
    then show ?thesis by (rule list_update_beyond)
  qed
  have nth_sock: "socket (xs ! i) = socket (ys ! i)"
    if "map socket xs = map socket ys" and "i < length ys" for xs ys :: "participant list" and i
    using that by (metis length_map nth_map)
  have extr: "map socket (participant_list_base ctx') = map socket (participant_list_base ctx)
      \<and> incoming w' = incoming w"
    if ex: "extract_message i onset ctx w = (ctx', w')" for i onset ctx w ctx' w'
  proof (cases "memmem_m (drop (nat onset) (take (nat (length_p (participant_list_base ctx ! i)))
                   (buffer (participant_list_base ctx ! i)))) terminator_string")
    case None
    with ex show ?thesis by (simp add: extract_message_def Let_def)
  next
    case (Some k)
    obtain ps1 w1 where sl: "share_loop (take (nat (onset + int k + terminator_length))
        (buffer (participant_list_base ctx ! i))) (participant_list_base ctx) w = (ps1, w1)"
      by (cases "share_loop (take (nat (onset + int k + terminator_length))
        (buffer (participant_list_base ctx ! i))) (participant_list_base ctx) w")
    from ex Some sl have "w' = w1 \<and> (\<exists>q. participant_list_base ctx' = ps1[i := q]
        \<and> socket q = socket (ps1 ! i))"
      by (auto simp: extract_message_def share_data_def Let_def)
    then obtain q where q: "w' = w1" "participant_list_base ctx' = ps1[i := q]"
        "socket q = socket (ps1 ! i)" by blast
    have "map socket (participant_list_base ctx') = map socket ps1"
      unfolding q(2) by (simp add: map_update q(3) same)
    with loop [OF sl] q(1) show ?thesis by simp
  qed
  have received: "pending (incoming w' sock) < pending (incoming w sock)"
    if "recv_m sock space w = (r, w')" and "0 < numRead_of r" for sock space w r w'
    using that
    by (auto simp: recv_m_def Let_def pending_def
             split: list.splits recv_event.splits if_splits)
  have dec: "pending (incoming w' (socket (participant_list_base ctx' ! i)))
         < pending (incoming w (socket (participant_list_base ctx ! i)))"
    if st: "parse_step i ctx w = Inr (n, ctx', w')" and n: "0 < n" for i ctx w n ctx' w'
  proof -
    let ?ps = "participant_list_base ctx"
    from st n have i: "i < length ?ps"
      by (auto simp: parse_step_def Let_def split: if_splits)
    from st i obtain p where p: "grow_buffer (?ps ! i) = Inr p"
      by (auto simp: parse_step_def Let_def split: sum.splits)
    obtain r w1 where r: "recv_m (socket p) (max_length p - length_p p) w = (r, w1)"
      by (cases "recv_m (socket p) (max_length p - length_p p) w")
    from st n i p r obtain bs where bs: "r = Received bs" "numRead_of r = n"
      by (auto simp: parse_step_def Let_def split: recv_result.splits if_splits prod.splits)
    let ?ctx1 = "ctx\<lparr>participant_list_base := ?ps[i := append_received p bs]\<rparr>"
    from st n i p r bs have ex: "extract_message i (search_onset p) ?ctx1 w1 = (ctx', w')"
      by (auto simp: parse_step_def Let_def split: if_splits prod.splits)
    have "map socket (participant_list_base ctx') = map socket (participant_list_base ?ctx1)"
      using extr [OF ex] by simp
    then have "socket (participant_list_base ctx' ! i) = socket (participant_list_base ?ctx1 ! i)"
      using i by (intro nth_sock) simp_all
    also have "\<dots> = socket p" using i by (simp add: append_received_def)
    finally have s: "socket (participant_list_base ctx' ! i) = socket p" .
    have s0: "socket (?ps ! i) = socket p"
      using p by (auto simp: grow_buffer_def Let_def split: if_splits)
    have "pending (incoming w1 (socket p)) < pending (incoming w (socket p))"
      using received [OF r] bs n by auto
    with s s0 extr [OF ex] show ?thesis by simp
  qed
  show ?thesis
    by (relation "measure (\<lambda>(i, ctx, w).
          pending (incoming w (socket (participant_list_base ctx ! i))))")
       (auto dest: dec)
qed

declare parse_data.simps [simp del]

subsection \<open>\<^verbatim>\<open>terminate_participants\<close>\<close>

text \<open>
  The \<^verbatim>\<open>while (pnt)\<close> loop: an entry that is closed (or any entry, when \<open>force_all\<close>) is
  unlinked, its socket given to \<^verbatim>\<open>close\<close> and the count decremented; the others stay
  in order.
\<close>

fun terminate_loop ::
  "bool \<Rightarrow> participant list \<Rightarrow> int \<Rightarrow> world \<Rightarrow> participant list \<times> int \<times> world" where
  "terminate_loop force_all [] cnt w = ([], cnt, w)"
| "terminate_loop force_all (pnt # next_pnt) cnt w =
     (if closed pnt \<or> force_all
      then terminate_loop force_all next_pnt (cnt - 1) (close_m (socket pnt) w)
      else (let (kept, cnt', w') = terminate_loop force_all next_pnt cnt w
            in (pnt # kept, cnt', w')))"

definition terminate_participants ::
  "server_context_type \<Rightarrow> bool \<Rightarrow> world \<Rightarrow> server_context_type \<times> world" where
  "terminate_participants ctx force_all w =
     (let (ps, cnt, w') = terminate_loop force_all (participant_list_base ctx)
                            (participant_count ctx) w
      in (ctx\<lparr>participant_list_base := ps, participant_count := cnt\<rparr>, w'))"

subsection \<open>\<^verbatim>\<open>add_participant\<close>\<close>

text \<open>The search loop: whether \<^verbatim>\<open>pnt\<close> is non-null when the loop ends.\<close>

fun find_socket :: "int \<Rightarrow> participant list \<Rightarrow> bool" where
  "find_socket s [] = False"
| "find_socket s (pnt # rest) = (if socket pnt = s then True else find_socket s rest)"

text \<open>
  \<open>participant_socket\<close> is what \<^verbatim>\<open>accept\<close> returned. The new entry is linked after the
  last one (\<^verbatim>\<open>prev_pnt\<close>), or becomes the base of an empty list.
\<close>

definition add_participant :: "int \<Rightarrow> server_context_type \<Rightarrow> server_context_type" where
  "add_participant participant_socket ctx =
     (if participant_socket \<le> 0 then ctx
      else if find_socket participant_socket (participant_list_base ctx) then ctx
      else (let new_entry = \<lparr>socket = participant_socket, closed = False, buffer = [],
                              length_p = 0, max_length = 0\<rparr>
            in ctx\<lparr>participant_list_base := participant_list_base ctx @ [new_entry],
                   participant_count := participant_count ctx + 1\<rparr>))"

subsection \<open>\<^verbatim>\<open>service_participants\<close>\<close>



subsection \<open>What a drain cycle keeps of an entry\<close>

text \<open>
  The relation between an entry of the list before and after operations of the drain
  cycle that the proofs below carry through the loop: the socket is the same, a set
  \<open>closed\<close> flag stays set, and \<open>length_p \<le> max_length\<close> stays true.
\<close>

definition kept :: "participant \<Rightarrow> participant \<Rightarrow> bool" where
  "kept p p' \<longleftrightarrow>
     socket p' = socket p \<and> (closed p \<longrightarrow> closed p')
     \<and> (length_p p \<le> max_length p \<longrightarrow> length_p p' \<le> max_length p')"

subsection \<open>Concrete registries and environments\<close>

text \<open>Inputs on which the theorems below are evaluated.\<close>

definition reg3 :: server_context_type where
  "reg3 = \<lparr>participant_list_base =
      [\<lparr>socket = 4, closed = False, buffer = [], length_p = 0, max_length = 0\<rparr>,
       \<lparr>socket = 5, closed = True, buffer = ''<ev'', length_p = 3, max_length = 65536\<rparr>,
       \<lparr>socket = 6, closed = False, buffer = [], length_p = 0, max_length = 0\<rparr>],
     participant_count = 3\<rparr>"

definition quiet :: world where
  "quiet = \<lparr>incoming = (\<lambda>s. []), send_outcome = (\<lambda>n. 1), sent = [], released = []\<rparr>"

definition abc :: server_context_type where
  "abc = \<lparr>participant_list_base =
      [\<lparr>socket = 4, closed = False, buffer = ''x</event>y'', length_p = 10, max_length = 65536\<rparr>,
       \<lparr>socket = 5, closed = False, buffer = [], length_p = 0, max_length = 0\<rparr>,
       \<lparr>socket = 6, closed = False, buffer = [], length_p = 0, max_length = 0\<rparr>],
     participant_count = 3\<rparr>"

definition second_send_fails :: world where
  "second_send_fails =
     \<lparr>incoming = (\<lambda>s. []), send_outcome = (\<lambda>n. if n = 1 then - 1 else 9), sent = [],
      released = []\<rparr>"

definition second_send_partial :: world where
  "second_send_partial =
     \<lparr>incoming = (\<lambda>s. []), send_outcome = (\<lambda>n. if n = 1 then 3 else 9), sent = [],
      released = []\<rparr>"

definition partial_buffered :: server_context_type where
  "partial_buffered = \<lparr>participant_list_base =
      [\<lparr>socket = 5, closed = False, buffer = ''<ev'', length_p = 3, max_length = 65536\<rparr>],
     participant_count = 1\<rparr>"

definition blocks_then_data :: world where
  "blocks_then_data =
     \<lparr>incoming = (\<lambda>s. if s = 5 then [Would_block, Bytes ''ent>''] else []),
      send_outcome = (\<lambda>n. 1), sent = [], released = []\<rparr>"

definition closes_then_data :: world where
  "closes_then_data =
     \<lparr>incoming = (\<lambda>s. if s = 5 then [Bytes [], Bytes ''ent>''] else []),
      send_outcome = (\<lambda>n. 1), sent = [], released = []\<rparr>"

definition split_terminator :: server_context_type where
  "split_terminator = \<lparr>participant_list_base =
      [\<lparr>socket = 5, closed = False, buffer = ''x</eve'', length_p = 6, max_length = 65536\<rparr>],
     participant_count = 1\<rparr>"

definition rest_arrives :: world where
  "rest_arrives =
     \<lparr>incoming = (\<lambda>s. if s = 5 then [Bytes ''nt>yz''] else []),
      send_outcome = (\<lambda>n. 9), sent = [], released = []\<rparr>"



definition one_fresh :: server_context_type where
  "one_fresh = \<lparr>participant_list_base =
      [\<lparr>socket = 5, closed = False, buffer = [], length_p = 0, max_length = 0\<rparr>],
     participant_count = 1\<rparr>"

definition two_messages_in_one_chunk :: world where
  "two_messages_in_one_chunk =
     \<lparr>incoming = (\<lambda>s. if s = 5 then [Bytes ''a</event>b</event>''] else []),
      send_outcome = (\<lambda>n. 9), sent = [], released = []\<rparr>"

definition three_messages_two_chunks :: world where
  "three_messages_two_chunks =
     \<lparr>incoming = (\<lambda>s. if s = 5 then [Bytes ''<event>A</event><event>B</event><event>C'',
                                          Bytes ''</event>''] else []),
      send_outcome = (\<lambda>n. 16), sent = [], released = []\<rparr>"

definition three_chunks :: world where
  "three_chunks =
     \<lparr>incoming = (\<lambda>s. if s = 5 then [Bytes ''<event>A'', Bytes ''B</eve'',
                                          Bytes ''nt><event>C</event>''] else []),
      send_outcome = (\<lambda>n. 17), sent = [], released = []\<rparr>"

definition leftover_message :: server_context_type where
  "leftover_message = \<lparr>participant_list_base =
      [\<lparr>socket = 5, closed = False, buffer = ''b</event>'', length_p = 9, max_length = 65536\<rparr>],
     participant_count = 1\<rparr>"

definition one_more_byte :: world where
  "one_more_byte =
     \<lparr>incoming = (\<lambda>s. if s = 5 then [Bytes ''c''] else []),
      send_outcome = (\<lambda>n. 1), sent = [], released = []\<rparr>"




section \<open>Properties\<close>

subsection \<open>Evaluation of the model on concrete inputs\<close>

lemmas drain_defs =
  parse_step_def grow_buffer_def recv_m_def buffer_chunk_size_def INT_MAX_def Let_def
  search_onset_def append_received_def extract_message_def memmem_m_def memmem_scan.simps
  terminator_string_def terminator_length_def share_data_def send_m_def

subsection \<open>Compaction\<close>

lemma terminate_loop_no_closed:
  "terminate_loop False ps cnt w = (ps', cnt', w') \<Longrightarrow> \<forall>p \<in> set ps'. \<not> closed p"
  by (induction ps arbitrary: cnt w ps' cnt' w') (auto simp: Let_def split: if_splits prod.splits)

lemma terminate_loop_nothing_closed:
  "\<forall>p \<in> set ps. \<not> closed p \<Longrightarrow> terminate_loop False ps cnt w = (ps, cnt, w)"
  by (induction ps arbitrary: cnt w) auto


text \<open>
  C8: a second \<open>terminate_participants ctx False\<close> right after a first one removes no
  participant; the registry, the count and the environment (no socket is closed again)
  are those the first call left.
\<close>

theorem compact_twice_removes_nothing_more:
  assumes "terminate_participants ctx False w = (ctx', w')"
  shows "terminate_participants ctx' False w' = (ctx', w')"
proof -
  obtain ps cnt where l: "terminate_loop False (participant_list_base ctx) (participant_count ctx) w
      = (ps, cnt, w')" and c: "ctx' = ctx\<lparr>participant_list_base := ps, participant_count := cnt\<rparr>"
    using assms by (auto simp: terminate_participants_def Let_def split: prod.splits)
  have "terminate_loop False ps cnt w' = (ps, cnt, w')"
    using terminate_loop_no_closed [OF l] by (rule terminate_loop_nothing_closed)
  then show ?thesis by (simp add: terminate_participants_def c)
qed

theorem compact_twice_removes_nothing_more_witness:
  "terminate_participants reg3 False quiet =
     (\<lparr>participant_list_base =
        [\<lparr>socket = 4, closed = False, buffer = [], length_p = 0, max_length = 0\<rparr>,
         \<lparr>socket = 6, closed = False, buffer = [], length_p = 0, max_length = 0\<rparr>],
       participant_count = 2\<rparr>, quiet\<lparr>released := [5]\<rparr>)
   \<and> terminate_participants
        \<lparr>participant_list_base =
          [\<lparr>socket = 4, closed = False, buffer = [], length_p = 0, max_length = 0\<rparr>,
           \<lparr>socket = 6, closed = False, buffer = [], length_p = 0, max_length = 0\<rparr>],
         participant_count = 2\<rparr> False (quiet\<lparr>released := [5]\<rparr>) =
     (\<lparr>participant_list_base =
        [\<lparr>socket = 4, closed = False, buffer = [], length_p = 0, max_length = 0\<rparr>,
         \<lparr>socket = 6, closed = False, buffer = [], length_p = 0, max_length = 0\<rparr>],
       participant_count = 2\<rparr>, quiet\<lparr>released := [5]\<rparr>)"
proof -
  have first: "terminate_participants reg3 False quiet =
     (\<lparr>participant_list_base =
        [\<lparr>socket = 4, closed = False, buffer = [], length_p = 0, max_length = 0\<rparr>,
         \<lparr>socket = 6, closed = False, buffer = [], length_p = 0, max_length = 0\<rparr>],
       participant_count = 2\<rparr>, quiet\<lparr>released := [5]\<rparr>)"
    by (simp add: terminate_participants_def reg3_def quiet_def close_m_def)
  from compact_twice_removes_nothing_more [OF first] first show ?thesis by simp
qed

subsection \<open>Adding a participant\<close>

lemma find_socket_iff: "find_socket s ps \<longleftrightarrow> s \<in> socket ` set ps"
  by (induction ps) auto

text \<open>
  C9: when the socket that \<^verbatim>\<open>accept\<close> returned is already the socket of an entry,
  \<open>add_participant\<close> leaves the list and the count as they are (the function has no
  error result); when it is a new socket (a successful \<^verbatim>\<open>accept\<close> returns a positive
  descriptor) an entry with \<open>closed = False\<close>, an empty buffer and zero \<open>length_p\<close> and
  \<open>max_length\<close> is appended and the count grows by one.
\<close>

theorem add_participant_known_or_new:
  "(s \<in> socket ` set (participant_list_base ctx) \<longrightarrow> add_participant s ctx = ctx)
   \<and> (0 < s \<and> s \<notin> socket ` set (participant_list_base ctx) \<longrightarrow>
        add_participant s ctx =
          ctx\<lparr>participant_list_base := participant_list_base ctx @
                 [\<lparr>socket = s, closed = False, buffer = [], length_p = 0, max_length = 0\<rparr>],
              participant_count := participant_count ctx + 1\<rparr>)"
  by (simp add: add_participant_def find_socket_iff Let_def)

theorem add_participant_known_or_new_witness:
  "add_participant 5 reg3 = reg3
   \<and> add_participant 7 reg3 =
        reg3\<lparr>participant_list_base := participant_list_base reg3 @
                 [\<lparr>socket = 7, closed = False, buffer = [], length_p = 0, max_length = 0\<rparr>],
             participant_count := 4\<rparr>"
  using add_participant_known_or_new [of 5 reg3] add_participant_known_or_new [of 7 reg3]
  by (simp add: reg3_def)

subsection \<open>Broadcast\<close>

lemma share_loop_effect:
  "share_loop msg ps w = (ps', w') \<Longrightarrow>
     length ps' = length ps
     \<and> w' = w\<lparr>sent := sent w @ map (\<lambda>p. (socket p, msg)) ps\<rparr>
     \<and> (\<forall>j < length ps. ps' ! j =
           (if send_outcome w (length (sent w) + j) \<le> 0 then (ps ! j)\<lparr>closed := True\<rparr>
            else ps ! j))"
proof (induction ps arbitrary: w ps' w')
  case Nil
  then show ?case by simp
next
  case (Cons p ps)
  let ?w1 = "w\<lparr>sent := sent w @ [(socket p, msg)]\<rparr>"
  obtain rest w2 where r: "share_loop msg ps ?w1 = (rest, w2)"
    by (cases "share_loop msg ps ?w1")
  from Cons.prems r have ps': "ps' = (if send_outcome w (length (sent w)) \<le> 0
        then p\<lparr>closed := True\<rparr> else p) # rest" and w': "w' = w2"
    by (auto simp: send_m_def Let_def)
  note ih = Cons.IH [OF r]
  have "length ps' = length (p # ps)" using ih ps' by simp
  moreover have "w' = w\<lparr>sent := sent w @ map (\<lambda>p. (socket p, msg)) (p # ps)\<rparr>"
    using ih w' by simp
  moreover have "ps' ! j = (if send_outcome w (length (sent w) + j) \<le> 0
        then ((p # ps) ! j)\<lparr>closed := True\<rparr> else (p # ps) ! j)" if "j < length (p # ps)" for j
  proof (cases j)
    case 0
    then show ?thesis using ps' by simp
  next
    case (Suc k)
    with that have "k < length ps" by simp
    with ih have "rest ! k = (if send_outcome ?w1 (length (sent ?w1) + k) \<le> 0
        then (ps ! k)\<lparr>closed := True\<rparr> else ps ! k)" by blast
    then show ?thesis using ps' Suc by simp
  qed
  ultimately show ?case by blast
qed

lemma share_data_effect:
  assumes "share_data buf len ctx w = (ctx', w')"
  shows "length (participant_list_base ctx') = length (participant_list_base ctx)"
    and "w' = w\<lparr>sent := sent w @ map (\<lambda>p. (socket p, take (nat len) buf)) (participant_list_base ctx)\<rparr>"
    and "j < length (participant_list_base ctx) \<Longrightarrow> participant_list_base ctx' ! j =
           (if send_outcome w (length (sent w) + j) \<le> 0
            then (participant_list_base ctx ! j)\<lparr>closed := True\<rparr>
            else participant_list_base ctx ! j)"
    and "participant_count ctx' = participant_count ctx"
proof -
  obtain ps where l: "share_loop (take (nat len) buf) (participant_list_base ctx) w = (ps, w')"
    and c: "ctx' = ctx\<lparr>participant_list_base := ps\<rparr>"
    using assms by (auto simp: share_data_def Let_def split: prod.splits)
  note e = share_loop_effect [OF l]
  show "length (participant_list_base ctx') = length (participant_list_base ctx)"
    using e c by simp
  show "w' = w\<lparr>sent := sent w @ map (\<lambda>p. (socket p, take (nat len) buf)) (participant_list_base ctx)\<rparr>"
    using e by blast
  show "participant_count ctx' = participant_count ctx" using c by simp
  show "participant_list_base ctx' ! j =
           (if send_outcome w (length (sent w) + j) \<le> 0
            then (participant_list_base ctx ! j)\<lparr>closed := True\<rparr>
            else participant_list_base ctx ! j)" if "j < length (participant_list_base ctx)"
    using e c that by simp
qed

text \<open>
  C4: a broadcast calls \<^verbatim>\<open>send\<close> once for every entry of the list, in list order and
  with the same byte range \<open>buffer[0 ..< len]\<close>, whatever the outcomes of the other sends
  (the list is the one the sender itself is in); an entry is changed only by the outcome
  of its own send, which sets \<open>closed\<close> when it is \<open>\<le> 0\<close>.
\<close>

theorem failed_send_closes_only_that_participant:
  assumes "share_data buf len ctx w = (ctx', w')"
  shows "sent w' = sent w @ map (\<lambda>p. (socket p, take (nat len) buf)) (participant_list_base ctx)
    \<and> length (participant_list_base ctx') = length (participant_list_base ctx)
    \<and> (\<forall>j < length (participant_list_base ctx).
          participant_list_base ctx' ! j =
            (if send_outcome w (length (sent w) + j) \<le> 0
             then (participant_list_base ctx ! j)\<lparr>closed := True\<rparr>
             else participant_list_base ctx ! j))"
  using share_data_effect [OF assms] by simp

theorem failed_send_closes_only_that_participant_witness:
  "share_data ''x</event>y'' 9 abc second_send_fails =
     (abc\<lparr>participant_list_base :=
        [\<lparr>socket = 4, closed = False, buffer = ''x</event>y'', length_p = 10, max_length = 65536\<rparr>,
         \<lparr>socket = 5, closed = True, buffer = [], length_p = 0, max_length = 0\<rparr>,
         \<lparr>socket = 6, closed = False, buffer = [], length_p = 0, max_length = 0\<rparr>]\<rparr>,
      second_send_fails\<lparr>sent := [(4, ''x</event>''), (5, ''x</event>''), (6, ''x</event>'')]\<rparr>)
   \<and> sent (second_send_fails\<lparr>sent := [(4, ''x</event>''), (5, ''x</event>''), (6, ''x</event>'')]\<rparr>)
       = sent second_send_fails @
         map (\<lambda>p. (socket p, take (nat 9) ''x</event>y'')) (participant_list_base abc)"
proof -
  have e: "share_data ''x</event>y'' 9 abc second_send_fails =
     (abc\<lparr>participant_list_base :=
        [\<lparr>socket = 4, closed = False, buffer = ''x</event>y'', length_p = 10, max_length = 65536\<rparr>,
         \<lparr>socket = 5, closed = True, buffer = [], length_p = 0, max_length = 0\<rparr>,
         \<lparr>socket = 6, closed = False, buffer = [], length_p = 0, max_length = 0\<rparr>]\<rparr>,
      second_send_fails\<lparr>sent := [(4, ''x</event>''), (5, ''x</event>''), (6, ''x</event>'')]\<rparr>)"
    by (simp add: share_data_def send_m_def abc_def second_send_fails_def)
  from failed_send_closes_only_that_participant [OF e] e show ?thesis by blast
qed

text \<open>
  C10: an entry is closed after a broadcast exactly when it was closed before or the
  outcome of its own send was \<open>\<le> 0\<close>; an outcome that is positive but smaller than the
  requested length leaves the entry as it was; and the broadcast makes one call of
  \<^verbatim>\<open>send\<close> per entry, each with the range from offset 0, so no remainder is sent again.
\<close>

theorem partial_send_leaves_participant_open:
  assumes "share_data buf len ctx w = (ctx', w')" and "j < length (participant_list_base ctx)"
  shows "(closed (participant_list_base ctx' ! j) \<longleftrightarrow>
            closed (participant_list_base ctx ! j) \<or> send_outcome w (length (sent w) + j) \<le> 0)
    \<and> (0 < send_outcome w (length (sent w) + j) \<and> send_outcome w (length (sent w) + j) < len
          \<longrightarrow> participant_list_base ctx' ! j = participant_list_base ctx ! j)
    \<and> drop (length (sent w)) (sent w') =
          map (\<lambda>p. (socket p, take (nat len) buf)) (participant_list_base ctx)"
  using share_data_effect(2,3) [OF assms(1)] assms(2) by simp

theorem partial_send_leaves_participant_open_witness:
  "share_data ''x</event>y'' 9 abc second_send_partial =
     (abc, second_send_partial\<lparr>sent := [(4, ''x</event>''), (5, ''x</event>''), (6, ''x</event>'')]\<rparr>)
   \<and> (1::nat) < length (participant_list_base abc)
   \<and> 0 < send_outcome second_send_partial (length (sent second_send_partial) + 1)
   \<and> send_outcome second_send_partial (length (sent second_send_partial) + 1) < 9
   \<and> \<not> closed (participant_list_base abc ! 1)
   \<and> drop (length (sent second_send_partial))
        (sent (second_send_partial\<lparr>sent := [(4, ''x</event>''), (5, ''x</event>''),
                                            (6, ''x</event>'')]\<rparr>)) =
      map (\<lambda>p. (socket p, take (nat 9) ''x</event>y'')) (participant_list_base abc)"
proof -
  have e: "share_data ''x</event>y'' 9 abc second_send_partial =
     (abc, second_send_partial\<lparr>sent := [(4, ''x</event>''), (5, ''x</event>''), (6, ''x</event>'')]\<rparr>)"
    by (simp add: share_data_def send_m_def abc_def second_send_partial_def)
  have j: "(1::nat) < length (participant_list_base abc)" by (simp add: abc_def)
  from partial_send_leaves_participant_open [OF e j] e j show ?thesis
    by (simp add: abc_def second_send_partial_def)
qed

subsection \<open>The drain cycle\<close>

lemma parse_data_stop:
  "parse_step i ctx w = Inr (n, ctx', w') \<Longrightarrow> \<not> 0 < n \<Longrightarrow> parse_data i ctx w = Inr (ctx', w')"
  by (simp add: parse_data.simps)

lemma parse_data_continue:
  "parse_step i ctx w = Inr (n, ctx', w') \<Longrightarrow> 0 < n \<Longrightarrow> parse_data i ctx w = parse_data i ctx' w'"
  by (simp add: parse_data.simps)

lemma parse_data_abort: "parse_step i ctx w = Inl e \<Longrightarrow> parse_data i ctx w = Inl e"
  by (simp add: parse_data.simps)

lemma grow_buffer_frame:
  assumes "grow_buffer p = Inr p'"
  shows "socket p' = socket p" and "closed p' = closed p" and "length_p p' = length_p p"
    and "max_length p \<le> 0 \<or> max_length p \<le> max_length p'"
    and "max_length p \<le> 0 \<Longrightarrow> max_length p' = buffer_chunk_size"
    and "buffer p' = buffer p \<or> buffer p' = take (nat (max_length p')) (buffer p)"
  using assms by (auto simp: grow_buffer_def Let_def split: if_splits)

lemma grow_buffer_keeps_bytes:
  assumes "grow_buffer p = Inr p'" and "length_p p \<le> max_length p"
  shows "take (nat (length_p p)) (buffer p') = take (nat (length_p p)) (buffer p)"
    and "length_p p' \<le> max_length p'"
  using assms
  by (auto simp: grow_buffer_def Let_def buffer_chunk_size_def min_def split: if_splits)


text \<open>
  C7: when the receive of an iteration of the drain cycle would block, \<open>parse_data\<close>
  returns at once, the participant's \<open>closed\<close> flag, \<open>length_p\<close> and buffered bytes being
  those it had; when the receive returns zero bytes or fails otherwise, \<open>parse_data\<close>
  returns at once with \<open>closed = True\<close>. In both cases no further event of the socket is
  consumed and nothing is sent.
\<close>

theorem drain_cycle_would_block_or_close:
  assumes i: "i < length (participant_list_base ctx)"
    and g: "grow_buffer (participant_list_base ctx ! i) = Inr p"
    and le: "length_p (participant_list_base ctx ! i) \<le> max_length (participant_list_base ctx ! i)"
    and r: "recv_m (socket p) (max_length p - length_p p) w = (r, w1)"
  shows "(r = Eagain \<longrightarrow>
            parse_data i ctx w =
              Inr (ctx\<lparr>participant_list_base := (participant_list_base ctx)[i := p]\<rparr>, w1))
       \<and> (r = Received [] \<or> r = Failed \<longrightarrow>
            parse_data i ctx w =
              Inr (ctx\<lparr>participant_list_base := (participant_list_base ctx)[i := p\<lparr>closed := True\<rparr>]\<rparr>,
                   w1))
       \<and> closed p = closed (participant_list_base ctx ! i)
       \<and> length_p p = length_p (participant_list_base ctx ! i)
       \<and> take (nat (length_p p)) (buffer p) =
           take (nat (length_p p)) (buffer (participant_list_base ctx ! i))
       \<and> sent w1 = sent w"
proof -
  have a: "parse_data i ctx w =
        Inr (ctx\<lparr>participant_list_base := (participant_list_base ctx)[i := p]\<rparr>, w1)"
    if "r = Eagain"
  proof -
    have "parse_step i ctx w =
        Inr (- 1, ctx\<lparr>participant_list_base := (participant_list_base ctx)[i := p]\<rparr>, w1)"
      using i g r that by (simp add: parse_step_def Let_def)
    then show ?thesis by (rule parse_data_stop) simp
  qed
  have b: "parse_data i ctx w =
        Inr (ctx\<lparr>participant_list_base := (participant_list_base ctx)[i := p\<lparr>closed := True\<rparr>]\<rparr>, w1)"
    if "r = Received [] \<or> r = Failed"
  proof -
    have "\<exists>n. \<not> 0 < n \<and> parse_step i ctx w =
        Inr (n, ctx\<lparr>participant_list_base := (participant_list_base ctx)[i := p\<lparr>closed := True\<rparr>]\<rparr>, w1)"
      using i g r that by (auto simp: parse_step_def Let_def)
    then show ?thesis using parse_data_stop by blast
  qed
  have c: "sent w1 = sent w"
    using r by (auto simp: recv_m_def Let_def split: list.splits recv_event.splits)
  from a b c grow_buffer_frame(2,3) [OF g] grow_buffer_keeps_bytes(1) [OF g le]
  show ?thesis by simp
qed

theorem drain_cycle_would_block_or_close_witness:
  "parse_data 0 partial_buffered blocks_then_data =
     Inr (\<lparr>participant_list_base =
             [\<lparr>socket = 5, closed = False, buffer = ''<ev'', length_p = 3, max_length = 131072\<rparr>],
           participant_count = 1\<rparr>,
          blocks_then_data\<lparr>incoming := (incoming blocks_then_data)(5 := [Bytes ''ent>''])\<rparr>)
   \<and> parse_data 0 partial_buffered closes_then_data =
     Inr (\<lparr>participant_list_base =
             [\<lparr>socket = 5, closed = True, buffer = ''<ev'', length_p = 3, max_length = 131072\<rparr>],
           participant_count = 1\<rparr>,
          closes_then_data\<lparr>incoming := (incoming closes_then_data)(5 := [Bytes ''ent>''])\<rparr>)"
proof -
  let ?p = "\<lparr>socket = 5, closed = False, buffer = ''<ev'', length_p = 3, max_length = 131072\<rparr>"
  have i: "0 < length (participant_list_base partial_buffered)"
    by (simp add: partial_buffered_def)
  have g: "grow_buffer (participant_list_base partial_buffered ! 0) = Inr ?p"
    by (simp add: partial_buffered_def grow_buffer_def buffer_chunk_size_def INT_MAX_def Let_def)
  have le: "length_p (participant_list_base partial_buffered ! 0)
      \<le> max_length (participant_list_base partial_buffered ! 0)"
    by (simp add: partial_buffered_def)
  have r1: "recv_m (socket ?p) (max_length ?p - length_p ?p) blocks_then_data =
      (Eagain, blocks_then_data\<lparr>incoming := (incoming blocks_then_data)(5 := [Bytes ''ent>''])\<rparr>)"
    by (simp add: recv_m_def blocks_then_data_def)
  have r2: "recv_m (socket ?p) (max_length ?p - length_p ?p) closes_then_data =
      (Received [], closes_then_data\<lparr>incoming := (incoming closes_then_data)(5 := [Bytes ''ent>''])\<rparr>)"
    by (simp add: recv_m_def closes_then_data_def)
  from drain_cycle_would_block_or_close [OF i g le r1]
    drain_cycle_would_block_or_close [OF i g le r2]
  show ?thesis by (simp add: partial_buffered_def)
qed

lemma search_onset_nonneg: "0 \<le> search_onset p"
  by (simp add: search_onset_def terminator_length_def)

lemma recv_m_fits:
  "recv_m s space w = (Received bs, w') \<Longrightarrow> 0 \<le> space \<Longrightarrow> int (length bs) \<le> space"
  by (auto simp: recv_m_def Let_def split: list.splits recv_event.splits)

lemma extract_message_frame:
  assumes ex: "extract_message i onset ctx w = (ctx', w')" and onset: "0 \<le> onset"
  shows "length (participant_list_base ctx') = length (participant_list_base ctx)"
    and "j < length (participant_list_base ctx) \<Longrightarrow>
           socket (participant_list_base ctx' ! j) = socket (participant_list_base ctx ! j)
         \<and> max_length (participant_list_base ctx' ! j) = max_length (participant_list_base ctx ! j)
         \<and> length_p (participant_list_base ctx' ! j) \<le> length_p (participant_list_base ctx ! j)
         \<and> (closed (participant_list_base ctx ! j) \<longrightarrow> closed (participant_list_base ctx' ! j))"
proof -
  let ?ps = "participant_list_base ctx"
  let ?hay = "drop (nat onset) (take (nat (length_p (?ps ! i))) (buffer (?ps ! i)))"
  have "length (participant_list_base ctx') = length ?ps
      \<and> (j < length ?ps \<longrightarrow>
           socket (participant_list_base ctx' ! j) = socket (?ps ! j)
         \<and> max_length (participant_list_base ctx' ! j) = max_length (?ps ! j)
         \<and> length_p (participant_list_base ctx' ! j) \<le> length_p (?ps ! j)
         \<and> (closed (?ps ! j) \<longrightarrow> closed (participant_list_base ctx' ! j)))"
  proof (cases "memmem_m ?hay terminator_string")
    case None
    with ex show ?thesis by (simp add: extract_message_def Let_def)
  next
    case (Some k)
    let ?size = "onset + int k + terminator_length"
    obtain ctx1 w1 where sd: "share_data (buffer (?ps ! i)) ?size ctx w = (ctx1, w1)"
      by (cases "share_data (buffer (?ps ! i)) ?size ctx w")
    let ?ps1 = "participant_list_base ctx1"
    let ?q = "(?ps1 ! i)\<lparr>length_p := length_p (?ps1 ! i) - ?size,
        buffer := take (nat (length_p (?ps1 ! i) - ?size)) (drop (nat ?size) (buffer (?ps1 ! i)))\<rparr>"
    from ex Some sd have c': "participant_list_base ctx' = ?ps1[i := ?q]"
      by (auto simp: extract_message_def Let_def)
    note e = share_data_effect [OF sd]
    have size: "0 \<le> ?size" using onset by (simp add: terminator_length_def)
    have len: "length (participant_list_base ctx') = length ?ps" using c' e(1) by simp
    moreover have "socket (participant_list_base ctx' ! j) = socket (?ps ! j)
         \<and> max_length (participant_list_base ctx' ! j) = max_length (?ps ! j)
         \<and> length_p (participant_list_base ctx' ! j) \<le> length_p (?ps ! j)
         \<and> (closed (?ps ! j) \<longrightarrow> closed (participant_list_base ctx' ! j))"
      if j: "j < length ?ps"
    proof -
      have one: "socket (?ps1 ! j) = socket (?ps ! j) \<and> max_length (?ps1 ! j) = max_length (?ps ! j)
          \<and> length_p (?ps1 ! j) = length_p (?ps ! j) \<and> (closed (?ps ! j) \<longrightarrow> closed (?ps1 ! j))"
        using e(3) [OF j] by simp
      show ?thesis
      proof (cases "j = i")
        case True
        with j e(1) have "participant_list_base ctx' ! j = ?q" using c' by simp
        with one size True show ?thesis by simp
      next
        case False
        then have "participant_list_base ctx' ! j = ?ps1 ! j" using c' by simp
        with one show ?thesis by simp
      qed
    qed
    ultimately show ?thesis by blast
  qed
  then show "length (participant_list_base ctx') = length (participant_list_base ctx)"
    and "j < length (participant_list_base ctx) \<Longrightarrow>
           socket (participant_list_base ctx' ! j) = socket (participant_list_base ctx ! j)
         \<and> max_length (participant_list_base ctx' ! j) = max_length (participant_list_base ctx ! j)
         \<and> length_p (participant_list_base ctx' ! j) \<le> length_p (participant_list_base ctx ! j)
         \<and> (closed (participant_list_base ctx ! j) \<longrightarrow> closed (participant_list_base ctx' ! j))"
    by blast+
qed

lemma kept_refl: "kept p p"
  by (simp add: kept_def)

lemma kept_trans: "kept p q \<Longrightarrow> kept q r \<Longrightarrow> kept p r"
  by (simp add: kept_def)

lemma parse_step_frame:
  assumes st: "parse_step i ctx w = Inr (n, ctx', w')"
  shows "length (participant_list_base ctx') = length (participant_list_base ctx)"
    and "j < length (participant_list_base ctx) \<Longrightarrow>
           kept (participant_list_base ctx ! j) (participant_list_base ctx' ! j)"
proof -
  let ?ps = "participant_list_base ctx"
  have "length (participant_list_base ctx') = length ?ps
      \<and> (j < length ?ps \<longrightarrow> kept (?ps ! j) (participant_list_base ctx' ! j))"
  proof (cases "i < length ?ps")
    case False
    with st show ?thesis by (simp add: parse_step_def Let_def kept_refl)
  next
    case i: True
    from st i obtain p where p: "grow_buffer (?ps ! i) = Inr p"
      by (auto simp: parse_step_def Let_def split: sum.splits)
    obtain r w1 where r: "recv_m (socket p) (max_length p - length_p p) w = (r, w1)"
      by (cases "recv_m (socket p) (max_length p - length_p p) w")
    have kp: "kept (?ps ! i) p"
      using grow_buffer_frame(1,2) [OF p] grow_buffer_keeps_bytes(2) [OF p]
      by (simp add: kept_def)
    have upd: "length (?ps[i := q]) = length ?ps
        \<and> (j < length ?ps \<longrightarrow> kept (?ps ! j) (?ps[i := q] ! j))" if "kept (?ps ! i) q" for q
      using that by (cases "j = i") (simp_all add: kept_refl)
    show ?thesis
    proof (cases r)
      case Eagain
      with st i p r have "participant_list_base ctx' = ?ps[i := p]"
        by (auto simp: parse_step_def Let_def)
      with upd [OF kp] show ?thesis by simp
    next
      case Failed
      with st i p r have "participant_list_base ctx' = ?ps[i := p\<lparr>closed := True\<rparr>]"
        by (auto simp: parse_step_def Let_def)
      moreover have "kept (?ps ! i) (p\<lparr>closed := True\<rparr>)" using kp by (simp add: kept_def)
      ultimately show ?thesis using upd by simp
    next
      case (Received bs)
      show ?thesis
      proof (cases "bs = []")
        case True
        with Received st i p r have "participant_list_base ctx' = ?ps[i := p\<lparr>closed := True\<rparr>]"
          by (auto simp: parse_step_def Let_def)
        moreover have "kept (?ps ! i) (p\<lparr>closed := True\<rparr>)" using kp by (simp add: kept_def)
        ultimately show ?thesis using upd by simp
      next
        case False
        let ?ctx1 = "ctx\<lparr>participant_list_base := ?ps[i := append_received p bs]\<rparr>"
        from False Received st i p r
        have ex: "extract_message i (search_onset p) ?ctx1 w1 = (ctx', w')"
          by (auto simp: parse_step_def Let_def split: prod.splits)
        have ka: "kept (?ps ! i) (append_received p bs)"
        proof -
          have "length_p p + int (length bs) \<le> max_length p" if "length_p p \<le> max_length p"
            using recv_m_fits [OF r [unfolded Received]] that by simp
          then show ?thesis using kp by (simp add: kept_def append_received_def)
        qed
        note f = extract_message_frame [OF ex search_onset_nonneg]
        have "kept (?ps ! j) (participant_list_base ctx' ! j)" if j: "j < length ?ps"
        proof -
          from upd [OF ka] j have 1: "kept (?ps ! j) (participant_list_base ?ctx1 ! j)" by simp
          from j have "j < length (participant_list_base ?ctx1)" by simp
          from f(2) [OF this]
          have 2: "kept (participant_list_base ?ctx1 ! j) (participant_list_base ctx' ! j)"
            by (simp add: kept_def)
          from 1 2 show ?thesis by (rule kept_trans)
        qed
        with f(1) show ?thesis by simp
      qed
    qed
  qed
  then show "length (participant_list_base ctx') = length (participant_list_base ctx)"
    and "j < length (participant_list_base ctx) \<Longrightarrow>
           kept (participant_list_base ctx ! j) (participant_list_base ctx' ! j)"
    by blast+
qed

lemma parse_data_frame:
  "parse_data i ctx w = Inr (ctx', w') \<Longrightarrow>
     length (participant_list_base ctx') = length (participant_list_base ctx)
     \<and> (\<forall>j < length (participant_list_base ctx).
           kept (participant_list_base ctx ! j) (participant_list_base ctx' ! j))"
proof (induction i ctx w rule: parse_data.induct)
  case (1 i ctx w)
  show ?case
  proof (cases "parse_step i ctx w")
    case (Inl e)
    with "1.prems" show ?thesis by (simp add: parse_data_abort)
  next
    case (Inr t)
    obtain n c1 w1 where t: "t = (n, c1, w1)" by (cases t)
    note st = Inr [unfolded t]
    note f = parse_step_frame [OF st]
    show ?thesis
    proof (cases "0 < n")
      case False
      with "1.prems" st have "ctx' = c1" by (simp add: parse_data_stop)
      with f show ?thesis by simp
    next
      case True
      with "1.prems" st have "parse_data i c1 w1 = Inr (ctx', w')"
        by (simp add: parse_data_continue)
      from "1.IH" [OF Inr t [symmetric] refl True this]
      have ih: "length (participant_list_base ctx') = length (participant_list_base c1)"
        "\<forall>j < length (participant_list_base c1).
           kept (participant_list_base c1 ! j) (participant_list_base ctx' ! j)" by blast+
      show ?thesis using f ih by (auto intro: kept_trans)
    qed
  qed
qed

subsection \<open>The capacity check\<close>




subsection \<open>The onset of the terminator search\<close>

text \<open>
  C3, as stated: the search begins at \<open>max 0 (length_before - (terminator_length - 1))\<close>.
  The code subtracts the whole \<open>terminator_length\<close>. With nine bytes \<^verbatim>\<open>b</event>\<close>
  buffered, the code searches from offset 1, where the stated formula gives 2; the
  terminator that begins at offset 1 is found once one more byte has arrived, and the
  message \<^verbatim>\<open>b</event>\<close> is sent.
\<close>

theorem search_onset_not_length_minus_seven:
  "search_onset \<lparr>socket = 5, closed = False, buffer = ''b</event>'', length_p = 9,
                  max_length = 65536\<rparr> = 1
   \<and> max 0 (9 - (terminator_length - 1)) = 2
   \<and> map_sum id (\<lambda>(n, c, w). sent w)
        (parse_step 0
           \<lparr>participant_list_base =
              [\<lparr>socket = 5, closed = False, buffer = ''b</event>'', length_p = 9,
                max_length = 65536\<rparr>],
            participant_count = 1\<rparr>
           \<lparr>incoming = (\<lambda>s. if s = 5 then [Bytes ''c''] else []),
            send_outcome = (\<lambda>n. 1), sent = [], released = []\<rparr>)
     = Inr [(5, ''b</event>'')]"
  by (simp add: drain_defs)

text \<open>
  C3, amended: in an iteration of the drain cycle whose receive returns bytes, the search
  for the terminator begins at \<open>onset = max 0 (length_before - terminator_length)\<close>,
  \<open>length_before\<close> being the length of the entry before the bytes of this receive were
  appended: the result of \<open>parse_step\<close> is decided by \<open>memmem_m\<close> on the bytes from
  \<open>onset\<close> up to the new length. Without a match nothing is sent and the appended bytes
  stay; with a match at distance \<open>k\<close> the range \<open>buffer[0 ..< onset + k + 8]\<close> is sent to
  every entry and removed from the front of the buffer.
\<close>

theorem search_begins_at_length_before_minus_terminator_length:
  assumes i: "i < length (participant_list_base ctx)"
    and g: "grow_buffer (participant_list_base ctx ! i) = Inr p"
    and r: "recv_m (socket p) (max_length p - length_p p) w = (Received bs, w1)"
    and bs: "bs \<noteq> []"
    and onset: "onset = max 0 (length_p (participant_list_base ctx ! i) - terminator_length)"
    and q: "q = append_received p bs"
    and ctx1: "ctx1 = ctx\<lparr>participant_list_base := (participant_list_base ctx)[i := q]\<rparr>"
    and hay: "hay = drop (nat onset) (take (nat (length_p q)) (buffer q))"
  shows "length_p q = length_p (participant_list_base ctx ! i) + int (length bs)
    \<and> (memmem_m hay terminator_string = None \<longrightarrow>
          parse_step i ctx w = Inr (int (length bs), ctx1, w1))
    \<and> (\<forall>k. memmem_m hay terminator_string = Some k \<longrightarrow>
          (\<exists>ctx2 w2. parse_step i ctx w = Inr (int (length bs), ctx2, w2)
             \<and> sent w2 = sent w1 @
                 map (\<lambda>e. (socket e, take (nat (onset + int k + terminator_length)) (buffer q)))
                     (participant_list_base ctx1)
             \<and> length_p (participant_list_base ctx2 ! i) =
                 length_p q - (onset + int k + terminator_length)
             \<and> buffer (participant_list_base ctx2 ! i) =
                 take (nat (length_p q - (onset + int k + terminator_length)))
                   (drop (nat (onset + int k + terminator_length)) (buffer q))))"
proof -
  let ?ps = "participant_list_base ctx"
  have lp: "length_p p = length_p (?ps ! i)" using grow_buffer_frame(3) [OF g] .
  have so: "search_onset p = onset"
    by (simp add: search_onset_def onset lp terminator_length_def)
  have n: "numRead_of (Received bs) \<noteq> 0" using bs by simp
  have step: "parse_step i ctx w =
      (case extract_message i onset ctx1 w1 of (ctx2, w2) \<Rightarrow> Inr (int (length bs), ctx2, w2))"
    using i g r bs by (simp add: parse_step_def Let_def so q ctx1)
  have qi: "participant_list_base ctx1 ! i = q" using i by (simp add: ctx1)
  have len: "length_p q = length_p (?ps ! i) + int (length bs)"
    by (simp add: q append_received_def lp)
  have none: "parse_step i ctx w = Inr (int (length bs), ctx1, w1)"
    if "memmem_m hay terminator_string = None"
    using that by (simp add: step extract_message_def Let_def qi hay)
  have some: "\<exists>ctx2 w2. parse_step i ctx w = Inr (int (length bs), ctx2, w2)
             \<and> sent w2 = sent w1 @
                 map (\<lambda>e. (socket e, take (nat (onset + int k + terminator_length)) (buffer q)))
                     (participant_list_base ctx1)
             \<and> length_p (participant_list_base ctx2 ! i) =
                 length_p q - (onset + int k + terminator_length)
             \<and> buffer (participant_list_base ctx2 ! i) =
                 take (nat (length_p q - (onset + int k + terminator_length)))
                   (drop (nat (onset + int k + terminator_length)) (buffer q))"
    if k: "memmem_m hay terminator_string = Some k" for k
  proof -
    let ?size = "onset + int k + terminator_length"
    obtain c w2 where sd: "share_data (buffer q) ?size ctx1 w1 = (c, w2)"
      by (cases "share_data (buffer q) ?size ctx1 w1")
    note e = share_data_effect [OF sd]
    have i1: "i < length (participant_list_base ctx1)" using i by (simp add: ctx1)
    let ?p1 = "participant_list_base c ! i"
    have p1: "length_p ?p1 = length_p q" "buffer ?p1 = buffer q"
      using e(3) [OF i1] qi by simp_all
    let ?p3 = "?p1\<lparr>length_p := length_p ?p1 - ?size,
        buffer := take (nat (length_p ?p1 - ?size)) (drop (nat ?size) (buffer ?p1))\<rparr>"
    let ?ctx2 = "c\<lparr>participant_list_base := (participant_list_base c)[i := ?p3]\<rparr>"
    have ex: "extract_message i onset ctx1 w1 = (?ctx2, w2)"
      using k sd by (simp add: extract_message_def Let_def qi hay)
    have "parse_step i ctx w = Inr (int (length bs), ?ctx2, w2)" by (simp add: step ex)
    moreover have "sent w2 = sent w1 @
        map (\<lambda>e. (socket e, take (nat ?size) (buffer q))) (participant_list_base ctx1)"
      using e(2) by simp
    moreover have "participant_list_base ?ctx2 ! i = ?p3" using i1 e(1) by simp
    ultimately show ?thesis using p1 by auto
  qed
  from len none some show ?thesis by blast
qed

theorem search_begins_at_length_before_minus_terminator_length_witness:
  "parse_step 0 leftover_message one_more_byte =
     Inr (1, \<lparr>participant_list_base =
               [\<lparr>socket = 5, closed = False, buffer = ''c'', length_p = 1, max_length = 131072\<rparr>],
              participant_count = 1\<rparr>,
          one_more_byte\<lparr>incoming := (incoming one_more_byte)(5 := []),
                        sent := [(5, ''b</event>'')]\<rparr>)
   \<and> max 0 (length_p (participant_list_base leftover_message ! 0) - terminator_length) = 1
   \<and> memmem_m (drop (nat 1) (take (nat 10) ''b</event>c'')) terminator_string = Some 0"
proof -
  let ?p = "\<lparr>socket = 5, closed = False, buffer = ''b</event>'', length_p = 9, max_length = 131072\<rparr>"
  let ?q = "\<lparr>socket = 5, closed = False, buffer = ''b</event>c'', length_p = 10, max_length = 131072\<rparr>"
  let ?w1 = "one_more_byte\<lparr>incoming := (incoming one_more_byte)(5 := [])\<rparr>"
  have i: "0 < length (participant_list_base leftover_message)"
    by (simp add: leftover_message_def)
  have g: "grow_buffer (participant_list_base leftover_message ! 0) = Inr ?p"
    by (simp add: leftover_message_def grow_buffer_def buffer_chunk_size_def INT_MAX_def Let_def)
  have r: "recv_m (socket ?p) (max_length ?p - length_p ?p) one_more_byte = (Received ''c'', ?w1)"
    by (simp add: recv_m_def one_more_byte_def)
  have bs: "''c'' \<noteq> []" by simp
  have onset: "(1::int) = max 0 (length_p (participant_list_base leftover_message ! 0) - terminator_length)"
    by (simp add: leftover_message_def terminator_length_def)
  have q: "?q = append_received ?p ''c''" by (simp add: append_received_def)
  have hay: "''</event>c'' = drop (nat 1) (take (nat (length_p ?q)) (buffer ?q))" by simp
  have k: "memmem_m ''</event>c'' terminator_string = Some 0"
    by (simp add: memmem_m_def memmem_scan.simps terminator_string_def)
  from search_begins_at_length_before_minus_terminator_length [OF i g r bs onset q refl hay] k
  have "\<exists>ctx2 w2. parse_step 0 leftover_message one_more_byte = Inr (int (length ''c''), ctx2, w2)
     \<and> sent w2 = sent ?w1 @ map (\<lambda>e. (socket e, take (nat (1 + int 0 + terminator_length)) (buffer ?q)))
         (participant_list_base (leftover_message\<lparr>participant_list_base :=
            (participant_list_base leftover_message)[0 := ?q]\<rparr>))"
    by blast
  moreover have run: "parse_step 0 leftover_message one_more_byte =
     Inr (1, \<lparr>participant_list_base =
               [\<lparr>socket = 5, closed = False, buffer = ''c'', length_p = 1, max_length = 131072\<rparr>],
              participant_count = 1\<rparr>,
          one_more_byte\<lparr>incoming := (incoming one_more_byte)(5 := []),
                        sent := [(5, ''b</event>'')]\<rparr>)"
    by (simp add: leftover_message_def one_more_byte_def drain_defs)
  ultimately show ?thesis using onset k by simp
qed

subsection \<open>The invariant of the buffer\<close>

text \<open>
  C6: \<open>length_p \<le> max_length\<close> holds for every entry of the list after each operation
  of an iteration of the drain cycle, in the order the code performs them (the capacity
  check, the receive that appends, the extraction with its broadcast and its
  \<^verbatim>\<open>memmove\<close>), and when \<open>parse_data\<close> returns, provided it held for every entry before.
\<close>

theorem length_never_exceeds_capacity:
  assumes inv: "\<forall>q \<in> set (participant_list_base ctx). length_p q \<le> max_length q"
    and i: "i < length (participant_list_base ctx)"
  shows "(\<forall>p. grow_buffer (participant_list_base ctx ! i) = Inr p \<longrightarrow>
            length_p p \<le> max_length p
          \<and> (\<forall>bs w1. recv_m (socket p) (max_length p - length_p p) w = (Received bs, w1) \<longrightarrow>
                length_p (append_received p bs) \<le> max_length (append_received p bs)
              \<and> (\<forall>ctx2 w2.
                    extract_message i (search_onset p)
                      (ctx\<lparr>participant_list_base :=
                             (participant_list_base ctx)[i := append_received p bs]\<rparr>) w1
                      = (ctx2, w2) \<longrightarrow>
                    (\<forall>q \<in> set (participant_list_base ctx2). length_p q \<le> max_length q))))
       \<and> (\<forall>ctx' w'. parse_data i ctx w = Inr (ctx', w') \<longrightarrow>
            (\<forall>q \<in> set (participant_list_base ctx'). length_p q \<le> max_length q))"
proof (intro conjI allI impI)
  fix p assume g: "grow_buffer (participant_list_base ctx ! i) = Inr p"
  from inv i have le: "length_p (participant_list_base ctx ! i)
      \<le> max_length (participant_list_base ctx ! i)" by simp
  show p: "length_p p \<le> max_length p" using grow_buffer_keeps_bytes(2) [OF g le] .
  fix bs w1 assume r: "recv_m (socket p) (max_length p - length_p p) w = (Received bs, w1)"
  show a: "length_p (append_received p bs) \<le> max_length (append_received p bs)"
    using recv_m_fits [OF r] p by (simp add: append_received_def)
  fix ctx2 w2
  let ?ctx1 = "ctx\<lparr>participant_list_base := (participant_list_base ctx)[i := append_received p bs]\<rparr>"
  assume ex: "extract_message i (search_onset p) ?ctx1 w1 = (ctx2, w2)"
  note f = extract_message_frame [OF ex search_onset_nonneg]
  have "length_p (participant_list_base ctx2 ! j) \<le> max_length (participant_list_base ctx2 ! j)"
    if j: "j < length (participant_list_base ctx2)" for j
  proof -
    from j f(1) have j1: "j < length (participant_list_base ?ctx1)" by simp
    then have j0: "j < length (participant_list_base ctx)" by simp
    have "length_p (participant_list_base ?ctx1 ! j) \<le> max_length (participant_list_base ?ctx1 ! j)"
      using a inv j0 by (cases "j = i") simp_all
    with f(2) [OF j1] show ?thesis by simp
  qed
  then show "\<forall>q \<in> set (participant_list_base ctx2). length_p q \<le> max_length q"
    by (simp add: all_set_conv_all_nth)
next
  fix ctx' w' assume pd: "parse_data i ctx w = Inr (ctx', w')"
  note f = parse_data_frame [OF pd]
  have "length_p (participant_list_base ctx' ! j) \<le> max_length (participant_list_base ctx' ! j)"
    if j: "j < length (participant_list_base ctx')" for j
  proof -
    from j f have j0: "j < length (participant_list_base ctx)" by simp
    with f have "kept (participant_list_base ctx ! j) (participant_list_base ctx' ! j)" by blast
    moreover from inv j0 have "length_p (participant_list_base ctx ! j)
        \<le> max_length (participant_list_base ctx ! j)" by simp
    ultimately show ?thesis by (simp add: kept_def)
  qed
  then show "\<forall>q \<in> set (participant_list_base ctx'). length_p q \<le> max_length q"
    by (simp add: all_set_conv_all_nth)
qed

theorem length_never_exceeds_capacity_witness:
  "length_p (participant_list_base split_terminator ! 0)
     \<le> max_length (participant_list_base split_terminator ! 0)
   \<and> 0 < length (participant_list_base split_terminator)
   \<and> parse_data 0 split_terminator rest_arrives =
      Inr (\<lparr>participant_list_base =
              [\<lparr>socket = 5, closed = False, buffer = ''yz'', length_p = 2, max_length = 131072\<rparr>],
             participant_count = 1\<rparr>,
           rest_arrives\<lparr>incoming := (incoming rest_arrives)(5 := []),
                         sent := [(5, ''x</event>'')]\<rparr>)
   \<and> length_p \<lparr>socket = 5, closed = False, buffer = ''yz'', length_p = 2, max_length = 131072\<rparr>
       \<le> max_length \<lparr>socket = 5, closed = False, buffer = ''yz'', length_p = 2,
                        max_length = 131072\<rparr>"
proof -
  have inv: "\<forall>q \<in> set (participant_list_base split_terminator). length_p q \<le> max_length q"
    by (simp add: split_terminator_def)
  have i: "0 < length (participant_list_base split_terminator)"
    by (simp add: split_terminator_def)
  have run: "parse_data 0 split_terminator rest_arrives =
      Inr (\<lparr>participant_list_base =
              [\<lparr>socket = 5, closed = False, buffer = ''yz'', length_p = 2, max_length = 131072\<rparr>],
             participant_count = 1\<rparr>,
           rest_arrives\<lparr>incoming := (incoming rest_arrives)(5 := []),
                         sent := [(5, ''x</event>'')]\<rparr>)"
    by (simp add: parse_data.simps split_terminator_def rest_arrives_def drain_defs)
  from length_never_exceeds_capacity [OF inv i, of rest_arrives] run inv i
  show ?thesis by (simp add: split_terminator_def)
qed

text \<open>
  C1, on two inputs. A single chunk \<^verbatim>\<open>a</event>b</event>\<close> holds two terminators; the
  drain cycle sends one message, \<^verbatim>\<open>a</event>\<close>, and returns with the complete message
  \<^verbatim>\<open>b</event>\<close> left in the buffer and nothing more to receive: \<^verbatim>\<open>parse_data\<close>
  searches once per \<^verbatim>\<open>recv\<close> (an \<^verbatim>\<open>if\<close>, not a loop). The same happens on the
  chunks \<^verbatim>\<open><event>A\<close>, \<^verbatim>\<open>B</eve\<close>, \<^verbatim>\<open>nt><event>C</event>\<close>: only
  \<^verbatim>\<open><event>AB</event>\<close> is sent. On the chunks
  \<^verbatim>\<open><event>A</event><event>B</event><event>C\<close> and \<^verbatim>\<open></event>\<close> (three
  terminators) two sends are made, the second with a range that holds two terminators:
  the search after the second \<^verbatim>\<open>recv\<close> starts behind the terminator that was left in
  the buffer.
\<close>

theorem drain_cycle_emits_one_of_two_messages:
  "map_sum id (\<lambda>(c, w). (sent w, map buffer (participant_list_base c), incoming w 5))
     (parse_data 0 one_fresh two_messages_in_one_chunk) =
     Inr ([(5, ''a</event>'')], [''b</event>''], [])
   \<and> map_sum id (\<lambda>(c, w). (sent w, map buffer (participant_list_base c), incoming w 5))
     (parse_data 0 one_fresh three_chunks) =
     Inr ([(5, ''<event>AB</event>'')], [''<event>C</event>''], [])
   \<and> map_sum id (\<lambda>(c, w). (sent w, map buffer (participant_list_base c), incoming w 5))
     (parse_data 0 one_fresh three_messages_two_chunks) =
     Inr ([(5, ''<event>A</event>''), (5, ''<event>B</event><event>C</event>'')], [[]], [])"
  by (simp add: parse_data.simps one_fresh_def two_messages_in_one_chunk_def three_chunks_def
        three_messages_two_chunks_def drain_defs)

subsection \<open>The service pass and the \<open>closed\<close> flag\<close>





end
